theory Spec2Isabelle
  imports Complex_Main "HOL-Library.Multiset"
begin

section \<open>Numbers and colour points\<close>

text \<open>
  The program is \<^verbatim>\<open>src/src/algorithm.js\<close>. A colour point is a JavaScript array
  \<^verbatim>\<open>[r, g, b]\<close> of three numbers. The channels are modelled as real numbers, and
  so are the results of arithmetic: the sign of zero, results beyond the largest
  double and, outside \<open>getHue\<close>, the rounding of a result to a double are not
  modelled. On points with integer channels that rounding changes no distance
  comparison and no rounded mean. It can change the hue, which is a product rounded
  to whole degrees, so \<open>getHue\<close> rounds every result as the machine does. The
  program never writes into a point array, so points are values here.

  A division can leave the finite numbers, and everything computed from its result
  carries that on. Such results are \<open>jsnum\<close>: a finite number, an infinity or NaN.
  A zero divisor counts as \<^verbatim>\<open>+0\<close>.
\<close>

type_synonym point = "real \<times> real \<times> real"

datatype jsnum = Fin real | PosInf | NegInf | NaN

fun js_div :: "jsnum \<Rightarrow> jsnum \<Rightarrow> jsnum" where
  "js_div NaN _ = NaN"
| "js_div _ NaN = NaN"
| "js_div (Fin a) (Fin b) =
     (if b = 0 then (if a = 0 then NaN else if 0 < a then PosInf else NegInf)
      else Fin (a / b))"
| "js_div (Fin a) _ = Fin 0"
| "js_div PosInf (Fin b) = (if 0 \<le> b then PosInf else NegInf)"
| "js_div NegInf (Fin b) = (if 0 \<le> b then NegInf else PosInf)"
| "js_div _ _ = NaN"

fun js_sub :: "jsnum \<Rightarrow> jsnum \<Rightarrow> jsnum" where
  "js_sub NaN _ = NaN"
| "js_sub _ NaN = NaN"
| "js_sub (Fin a) (Fin b) = Fin (a - b)"
| "js_sub (Fin a) PosInf = NegInf"
| "js_sub (Fin a) NegInf = PosInf"
| "js_sub PosInf PosInf = NaN"
| "js_sub PosInf _ = PosInf"
| "js_sub NegInf NegInf = NaN"
| "js_sub NegInf _ = NegInf"

fun js_mul :: "jsnum \<Rightarrow> jsnum \<Rightarrow> jsnum" where
  "js_mul NaN _ = NaN"
| "js_mul _ NaN = NaN"
| "js_mul (Fin a) (Fin b) = Fin (a * b)"
| "js_mul (Fin a) PosInf = (if a = 0 then NaN else if 0 < a then PosInf else NegInf)"
| "js_mul (Fin a) NegInf = (if a = 0 then NaN else if 0 < a then NegInf else PosInf)"
| "js_mul PosInf (Fin b) = (if b = 0 then NaN else if 0 < b then PosInf else NegInf)"
| "js_mul NegInf (Fin b) = (if b = 0 then NaN else if 0 < b then NegInf else PosInf)"
| "js_mul PosInf PosInf = PosInf"
| "js_mul PosInf NegInf = NegInf"
| "js_mul NegInf PosInf = NegInf"
| "js_mul NegInf NegInf = PosInf"

text \<open>\<^verbatim>\<open>Math.round\<close>: the nearest integer, a tie going up.\<close>

definition math_round :: "real \<Rightarrow> real" where
  "math_round x = of_int \<lfloor>x + 1 / 2\<rfloor>"

fun js_round :: "jsnum \<Rightarrow> jsnum" where
  "js_round (Fin x) = Fin (math_round x)"
| "js_round v = v"


fun is_finite :: "jsnum \<Rightarrow> bool" where
  "is_finite (Fin x) = True"
| "is_finite _ = False"

text \<open>
  The remainder \<^verbatim>\<open>x % y\<close> of finite numbers with \<open>y \<noteq> 0\<close>: the quotient is cut
  towards zero, so the result has the sign of \<open>x\<close>.
\<close>

definition js_rem :: "real \<Rightarrow> real \<Rightarrow> real" where
  "js_rem x y = x - y * of_int (if 0 \<le> x / y then \<lfloor>x / y\<rfloor> else \<lceil>x / y\<rceil>)"

text \<open>
  The double nearest to a real number, a tie going to the even significand: the
  number is cut to 53 significant bits, with the exponent of the smallest normal
  double for anything smaller.
\<close>

definition round_even :: "real \<Rightarrow> int" where
  "round_even x =
     (let f = \<lfloor>x\<rfloor> in
      if x - of_int f < 1 / 2 then f
      else if 1 / 2 < x - of_int f then f + 1
      else if even f then f else f + 1)"

definition double_exponent :: "real \<Rightarrow> int" where
  "double_exponent x = max \<lfloor>log 2 \<bar>x\<bar>\<rfloor> (- 1022)"

definition round_double :: "real \<Rightarrow> real" where
  "round_double x =
     (if x = 0 then 0
      else (let u = 2 powi (double_exponent x - 52)
            in of_int (round_even (x / u)) * u))"

section \<open>Colour metrics\<close>

fun euclideanDistance :: "point \<Rightarrow> point \<Rightarrow> real" where
  "euclideanDistance (x0, x1, x2) (y0, y1, y2) =
     sqrt ((x0 - y0) ^ 2 + (x1 - y1) ^ 2 + (x2 - y2) ^ 2)"

definition getBrightness :: "point \<Rightarrow> real" where
  "getBrightness point = euclideanDistance point (0, 0, 0)"

fun getHue :: "point \<Rightarrow> real" where
  "getHue (r, g, b) =
     (let mx = max r (max g b); mn = min r (min g b) in
      if mx = mn then 0
      else
        (let delta = round_double (mx - mn);
             hue = (if mx = r then js_rem (round_double (round_double (g - b) / delta)) 6
                    else if mx = g
                    then round_double (round_double (round_double (b - r) / delta) + 2)
                    else round_double (round_double (round_double (r - g) / delta) + 4));
             hue = math_round (round_double (hue * 60))
         in if hue < 0 then round_double (hue + 360) else hue))"

declare getHue.simps [simp del]

fun getSaturation :: "point \<Rightarrow> jsnum" where
  "getSaturation (r, g, b) =
     (let m = min (r / 255) (min (g / 255) (b / 255));
          V = max (r / 255) (max (g / 255) (b / 255))
      in js_div (Fin (V - m)) (Fin V))"

fun getValue :: "point \<Rightarrow> real" where
  "getValue (r, g, b) = max r (max g b) / 255 * 100"

section \<open>Monochromatic colours\<close>

text \<open>
  \<^verbatim>\<open>hsvToRgb\<close> comes from \<^verbatim>\<open>./utils\<close>, which is not part of the sources at hand. It
  is a parameter of the model, applied to the three numbers of each HSV triple.
  \<open>hsv_points\<close> is the array of that name as it stands before the final \<^verbatim>\<open>map\<close>.
\<close>

type_synonym hsv = "real \<times> jsnum \<times> real"

definition hsv_hue :: "hsv \<Rightarrow> real" where
  "hsv_hue x = fst x"

definition hsv_saturation :: "hsv \<Rightarrow> jsnum" where
  "hsv_saturation x = fst (snd x)"

definition hsv_value :: "hsv \<Rightarrow> real" where
  "hsv_value x = snd (snd x)"

definition hsv_points :: "point \<Rightarrow> nat \<Rightarrow> hsv list" where
  "hsv_points point step =
     (let hue = getHue point; saturation = getSaturation point; value = getValue point;
          clip_n = step + 1;
          clip00 = js_round (js_div saturation (Fin (real clip_n)));
          clip01 = math_round ((100 - value) / real clip_n);
          clip10 = js_round (js_div (js_sub (Fin 100) saturation) (Fin (real clip_n)));
          clip11 = math_round (value / real clip_n)
      in map (\<lambda>i. (hue, js_mul (Fin (real i)) clip00, 100 - real i * clip01)) [0..<clip_n]
         @ [(hue, saturation, value)]
         @ map (\<lambda>i. (hue, js_sub (Fin 100) (js_mul (Fin (real i)) clip10), real i * clip11))
             (rev [0..<clip_n]))"

text \<open>
  The order that the specification words as "from dark to light": no triple before
  the middle one is lighter than it, and none after it is darker, the lightness
  being the value of the HSV triple.
\<close>

definition dark_to_light :: "hsv list \<Rightarrow> bool" where
  "dark_to_light hs =
     (let mid = length hs div 2 in
      list_all (\<lambda>x. hsv_value x \<le> hsv_value (hs ! mid)) (take mid hs)
      \<and> list_all (\<lambda>x. hsv_value (hs ! mid) \<le> hsv_value x) (drop (Suc mid) hs))"

text \<open>The opposite order: nothing before the middle triple is darker than it, nothing after it lighter.\<close>

definition light_to_dark :: "hsv list \<Rightarrow> bool" where
  "light_to_dark hs =
     (let mid = length hs div 2 in
      list_all (\<lambda>x. hsv_value (hs ! mid) \<le> hsv_value x) (take mid hs)
      \<and> list_all (\<lambda>x. hsv_value x \<le> hsv_value (hs ! mid)) (drop (Suc mid) hs))"

definition getMonochromaticColors :: "(real \<Rightarrow> jsnum \<Rightarrow> real \<Rightarrow> 'c) \<Rightarrow> point \<Rightarrow> nat \<Rightarrow> 'c list" where
  "getMonochromaticColors hsvToRgb point step =
     map (\<lambda>(h, s, v). hsvToRgb h s v) (hsv_points point step)"

section \<open>Sorting a palette\<close>





section \<open>K-means\<close>

text \<open>
  What the engine decides at random is an input of the model. \<open>sort_random\<close> is
  what \<^verbatim>\<open>sort(() => 0.5 - Math.random())\<close> leaves in the array it sorts, and
  \<open>random n\<close> is the value of the \<open>n\<close>-th call of \<^verbatim>\<open>Math.random()\<close> after that.
  \<open>host_ok\<close> says what an engine guarantees: the sort rearranges the array, and
  each random number lies in \<open>[0, 1)\<close>.
\<close>

record host =
  sort_random :: "point list \<Rightarrow> point list"
  random :: "nat \<Rightarrow> real"

definition host_ok :: "host \<Rightarrow> bool" where
  "host_ok h = ((\<forall>xs. mset (sort_random h xs) = mset xs) \<and>
                (\<forall>n. 0 \<le> random h n \<and> random h n < 1))"

text \<open>
  A run stops with \<open>TypeError\<close> where the program reads a property of
  \<^verbatim>\<open>undefined\<close>. A centre is \<open>None\<close> when it is \<^verbatim>\<open>undefined\<close>, the value of
  an array read out of range.
\<close>

datatype error = TypeError

definition nth_opt :: "'a list \<Rightarrow> int \<Rightarrow> 'a option" where
  "nth_opt xs i = (if 0 \<le> i \<and> i < int (length xs) then Some (xs ! nat i) else None)"

fun isConverged_loop :: "point list \<Rightarrow> point option list \<Rightarrow> error + bool" where
  "isConverged_loop [] new_centers = Inr True"
| "isConverged_loop (old # olds) [] = Inl TypeError"
| "isConverged_loop (old # olds) (None # news) = Inl TypeError"
| "isConverged_loop (old # olds) (Some new # news) =
     (if 1 < euclideanDistance old new then Inr False else isConverged_loop olds news)"

definition isConverged :: "point list \<Rightarrow> point option list \<Rightarrow> error + bool" where
  "isConverged old_centers new_centers =
     (if length old_centers = 0 then Inr False
      else isConverged_loop old_centers new_centers)"

text \<open>
  The state of the loop of \<open>kmeans\<close>: the array the caller passed, the program's
  variables, and two counters that the program does not have: \<open>draws\<close> counts the
  calls of \<^verbatim>\<open>Math.random()\<close> in the loop and \<open>passes\<close> the executions of its body.
\<close>

record kstate =
  pixels_array :: "point list"
  centers :: "point option list"
  old_centers :: "point list"
  iterations :: int
  draws :: nat
  passes :: nat

text \<open>\<^verbatim>\<open>centers.map((c) => [...c])\<close>: spreading \<^verbatim>\<open>undefined\<close> throws.\<close>

fun copy_centers :: "point option list \<Rightarrow> error + point list" where
  "copy_centers [] = Inr []"
| "copy_centers (None # cs) = Inl TypeError"
| "copy_centers (Some c # cs) =
     (case copy_centers cs of Inl e \<Rightarrow> Inl e | Inr r \<Rightarrow> Inr (c # r))"

text \<open>\<^verbatim>\<open>Math.min\<close> of no arguments is \<^verbatim>\<open>Infinity\<close>, here \<open>None\<close>.\<close>

fun math_min :: "real list \<Rightarrow> real option" where
  "math_min [] = None"
| "math_min (d # ds) = Some (fold min ds d)"

fun indexOf :: "'a list \<Rightarrow> 'a \<Rightarrow> int" where
  "indexOf [] v = - 1"
| "indexOf (x # xs) v =
     (if x = v then 0 else (let r = indexOf xs v in if r < 0 then - 1 else r + 1))"

definition target_index :: "point list \<Rightarrow> point \<Rightarrow> int" where
  "target_index cs pixel =
     (let distances = map (\<lambda>point. euclideanDistance point pixel) cs in
      case math_min distances of None \<Rightarrow> - 1 | Some m \<Rightarrow> indexOf distances m)"

definition push_cluster :: "point list list \<Rightarrow> int \<Rightarrow> point \<Rightarrow> error + point list list" where
  "push_cluster clusters i pixel =
     (if 0 \<le> i \<and> i < int (length clusters)
      then Inr (clusters[nat i := clusters ! nat i @ [pixel]])
      else Inl TypeError)"

fun assign :: "point list \<Rightarrow> point list \<Rightarrow> point list list \<Rightarrow> error + point list list" where
  "assign cs [] clusters = Inr clusters"
| "assign cs (pixel # rest) clusters =
     (case push_cluster clusters (target_index cs pixel) pixel of
        Inl e \<Rightarrow> Inl e
      | Inr clusters' \<Rightarrow> assign cs rest clusters')"

definition sum_points :: "point list \<Rightarrow> point" where
  "sum_points points =
     foldl (\<lambda>(a0, a1, a2) (v0, v1, v2). (a0 + v0, a1 + v1, a2 + v2)) (0, 0, 0) points"

definition mean_point :: "point list \<Rightarrow> point" where
  "mean_point points =
     (case sum_points points of (s0, s1, s2) \<Rightarrow>
        (math_round (s0 / real (length points)),
         math_round (s1 / real (length points)),
         math_round (s2 / real (length points))))"

fun update_centers :: "host \<Rightarrow> point list \<Rightarrow> nat \<Rightarrow> point list list \<Rightarrow> point option list \<times> nat" where
  "update_centers h pixels d [] = ([], d)"
| "update_centers h pixels d (points # rest) =
     (if length points = 0 then
        (let c = nth_opt pixels \<lfloor>random h d * real (length pixels)\<rfloor>;
             (cs, d') = update_centers h pixels (Suc d) rest
         in (c # cs, d'))
      else
        (let (cs, d') = update_centers h pixels d rest
         in (Some (mean_point points) # cs, d')))"

text \<open>The body of the loop. It does not read \<open>iterations\<close>.\<close>

definition kmeans_pass :: "host \<Rightarrow> nat \<Rightarrow> kstate \<Rightarrow> error + kstate" where
  "kmeans_pass h k s =
     (case copy_centers (centers s) of
        Inl e \<Rightarrow> Inl e
      | Inr cs \<Rightarrow>
          (case assign cs (pixels_array s) (replicate k []) of
             Inl e \<Rightarrow> Inl e
           | Inr clusters \<Rightarrow>
               (let (new, d) = update_centers h (pixels_array s) (draws s) clusters
                in Inr (s\<lparr>old_centers := cs, centers := new, draws := d,
                          passes := Suc (passes s)\<rparr>))))"

text \<open>
  The loop \<^verbatim>\<open>while (!isConverged(old_centers, centers) && iterations++ <= max_iterations)\<close>.
  The second test runs only when the first holds, and it adds one to \<open>iterations\<close>
  whatever its outcome.
\<close>

function kmeans_loop :: "host \<Rightarrow> nat \<Rightarrow> int \<Rightarrow> kstate \<Rightarrow> error + kstate" where
  "kmeans_loop h k max_iterations s =
     (case isConverged (old_centers s) (centers s) of
        Inl e \<Rightarrow> Inl e
      | Inr True \<Rightarrow> Inr s
      | Inr False \<Rightarrow>
          (if iterations s \<le> max_iterations then
             (case kmeans_pass h k s of
                Inl e \<Rightarrow> Inl e
              | Inr s' \<Rightarrow>
                  kmeans_loop h k max_iterations (s'\<lparr>iterations := iterations s + 1\<rparr>))
           else Inr (s\<lparr>iterations := iterations s + 1\<rparr>)))"
  by pat_completeness auto
termination
  by (relation "measure (\<lambda>(h, k, max_iterations, s). nat (max_iterations + 1 - iterations s))")
     auto

declare kmeans_loop.simps [simp del]

definition kmeans_init :: "host \<Rightarrow> point list \<Rightarrow> nat \<Rightarrow> kstate" where
  "kmeans_init h pixels k =
     (let shuffled = sort_random h pixels in
      \<lparr>pixels_array = shuffled, centers = map Some (take k shuffled), old_centers = [],
       iterations = 0, draws = 0, passes = 0\<rparr>)"

text \<open>
  \<open>kmeans_run\<close> is the function up to its \<^verbatim>\<open>return\<close>, with the final state;
  \<open>kmeans\<close> returns the centres. The number \<open>k\<close> of clusters is a natural number
  and \<open>max_iterations\<close> an integer. The default values of the two and the promise
  that wraps the result of the \<^verbatim>\<open>async\<close> function are left out.
\<close>

definition kmeans_run :: "host \<Rightarrow> point list \<Rightarrow> nat \<Rightarrow> int \<Rightarrow> error + kstate" where
  "kmeans_run h pixels k max_iterations =
     kmeans_loop h k max_iterations (kmeans_init h pixels k)"

definition kmeans :: "host \<Rightarrow> point list \<Rightarrow> nat \<Rightarrow> int \<Rightarrow> error + point option list" where
  "kmeans h pixels k max_iterations =
     (case kmeans_run h pixels k max_iterations of
        Inl e \<Rightarrow> Inl e
      | Inr s \<Rightarrow> Inr (centers s))"

text \<open>The caller's array after a call that returns.\<close>

definition pixels_after :: "host \<Rightarrow> point list \<Rightarrow> nat \<Rightarrow> int \<Rightarrow> point list option" where
  "pixels_after h pixels k max_iterations =
     (case kmeans_run h pixels k max_iterations of
        Inl e \<Rightarrow> None
      | Inr s \<Rightarrow> Some (pixels_array s))"

text \<open>
  What holds of the state each time the loop tests its condition, in a run on a
  non-empty array with \<open>k \<ge> 1\<close>.
\<close>

definition loop_inv :: "nat \<Rightarrow> kstate \<Rightarrow> bool" where
  "loop_inv k s =
     (pixels_array s \<noteq> [] \<and> centers s \<noteq> [] \<and> length (centers s) \<le> k
      \<and> None \<notin> set (centers s) \<and> length (old_centers s) \<le> length (centers s))"

text \<open>An engine for the examples: its sort reverses the array, its random numbers are 0.\<close>

definition host_rev :: host where
  "host_rev = \<lparr>sort_random = rev, random = (\<lambda>n. 0)\<rparr>"

text \<open>Another one, whose random numbers are all 9/10.\<close>

definition host_last :: host where
  "host_last = \<lparr>sort_random = rev, random = (\<lambda>n. 9 / 10)\<rparr>"

section \<open>Properties of the metrics\<close>

lemma double_exponent_eq:
  assumes "2 powi e \<le> \<bar>x\<bar>" "\<bar>x\<bar> < 2 powi (e + 1)" "- 1022 \<le> e"
  shows "double_exponent x = e"
proof -
  have "(0::real) < 2 powi e" by (rule zero_less_power_int) simp
  with assms(1) have pos: "0 < \<bar>x\<bar>" by linarith
  have a: "2 powr real_of_int e = 2 powi e" by (simp add: powr_real_of_int')
  have "2 powr (real_of_int e + 1) = 2 powr real_of_int (e + 1)" by simp
  also have "\<dots> = 2 powi (e + 1)" by (rule powr_real_of_int') simp_all
  finally have b: "2 powr (real_of_int e + 1) = 2 powi (e + 1)" .
  have "\<lfloor>log 2 \<bar>x\<bar>\<rfloor> = e"
    using assms(1,2) pos by (simp add: floor_log_eq_powr_iff a b)
  then show ?thesis using assms(3) by (simp add: double_exponent_def)
qed

lemma round_double_eval:
  assumes "2 powi e \<le> \<bar>x\<bar>" "\<bar>x\<bar> < 2 powi (e + 1)" "- 1022 \<le> e"
  shows "round_double x = of_int (round_even (x / 2 powi (e - 52))) * 2 powi (e - 52)"
proof -
  have "(0::real) < 2 powi e" by (rule zero_less_power_int) simp
  with assms(1) have "0 < \<bar>x\<bar>" by linarith
  then have "x \<noteq> 0" by auto
  then show ?thesis by (simp add: round_double_def double_exponent_eq[OF assms] Let_def)
qed

lemma round_double_0: "round_double 0 = 0"
  by (simp add: round_double_def)

lemma round_double_tenth: "round_double (1 / 10) = 7205759403792794 / 2 ^ 56"
  by (subst round_double_eval[of "- 4"]) (simp_all add: round_even_def power_int_minus Let_def)

lemma round_double_examples:
  "round_double 1 = 1" "round_double 2 = 2" "round_double 4 = 4" "round_double 24 = 24"
  "round_double 120 = 120" "round_double 240 = 240" "round_double 255 = 255"
  by (subst round_double_eval[of 0], simp_all add: round_even_def power_int_minus Let_def)
     (subst round_double_eval[of 1], simp_all add: round_even_def power_int_minus Let_def,
      subst round_double_eval[of 2], simp_all add: round_even_def power_int_minus Let_def,
      subst round_double_eval[of 4], simp_all add: round_even_def power_int_minus Let_def,
      subst round_double_eval[of 6], simp_all add: round_even_def power_int_minus Let_def,
      subst round_double_eval[of 7], simp_all add: round_even_def power_int_minus Let_def,
      subst round_double_eval[of 7], simp_all add: round_even_def power_int_minus Let_def)

lemma getHue_examples:
  "getHue (255, 0, 0) = 0" "getHue (0, 255, 0) = 120" "getHue (0, 0, 255) = 240"
  "getHue (128, 128, 128) = 0" "getHue (100, 80, 80) = 0"
  by (simp_all add: getHue.simps Let_def math_round_def js_rem_def round_double_0
      round_double_examples)

text \<open>
  Where the exact product is a half, the roundings before it decide: for
  \<open>(0, 24, 1)\<close> the exact value of \<open>hue * 60\<close> is 122.5, the machine's is just below,
  and the hue is 122.
\<close>

lemma getHue_half: "getHue (0, 24, 1) = 122"
proof -
  have a: "round_double (1 / 24) = 6004799503160661 / 144115188075855872"
    by (subst round_double_eval[of "- 5"]) (simp_all add: round_even_def power_int_minus Let_def)
  have b: "round_double (294235175654872405 / 144115188075855872)
             = 4597424619607381 / 2251799813685248"
    by (subst round_double_eval[of 1]) (simp_all add: round_even_def power_int_minus Let_def)
  have c: "round_double (68961369294110715 / 562949953421312)
             = 8620171161763839 / 70368744177664"
    by (subst round_double_eval[of 6]) (simp_all add: round_even_def power_int_minus Let_def)
  show ?thesis
    by (simp add: getHue.simps Let_def round_double_examples a b c math_round_def)
qed

lemma frac255: "(a / 255 - c / 255) / (a / 255) = (a - c) / (a::real)"
  by (cases "a = 0") (simp_all add: field_simps)

lemma saturation_value:
  assumes "0 < max r (max g b)"
  shows "getSaturation (r, g, b) = Fin ((max r (max g b) - min r (min g b)) / max r (max g b))"
  using assms by (auto simp: Let_def max_def min_def field_simps)

text \<open>
  Claim C9. \<open>getSaturation\<close> divides by the largest channel over 255. That divisor
  is 0, and the result not a finite number, exactly when the largest channel is 0.
  For a point with channels from 0 on that is pure black, and the result is NaN.
  With a positive largest channel the result is a finite number.
\<close>

theorem getSaturation_zero_division:
  "((max (r / 255) (max (g / 255) (b / 255)) = 0) \<longleftrightarrow> max r (max g b) = 0)
   \<and> (is_finite (getSaturation (r, g, b)) \<longleftrightarrow> max r (max g b) \<noteq> 0)
   \<and> (0 \<le> r \<and> 0 \<le> g \<and> 0 \<le> b \<and> max r (max g b) = 0 \<longrightarrow>
        (r, g, b) = (0, 0, 0) \<and> getSaturation (r, g, b) = NaN)
   \<and> (0 < max r (max g b) \<longrightarrow> is_finite (getSaturation (r, g, b)))"
  by (auto simp: Let_def max_def min_def split: if_splits)

theorem getSaturation_zero_division_witness:
  "\<not> is_finite (getSaturation (0, 0, 0)) \<and> getSaturation (0, 0, 0) = NaN
   \<and> is_finite (getSaturation (255, 128, 0))"
  using getSaturation_zero_division [of 0 0 0] getSaturation_zero_division [of 255 128 0]
  by simp

section \<open>Properties of the monochromatic colours\<close>

lemma hsv_points_length: "length (hsv_points p step) = 2 * (step + 1) + 1"
  by (simp add: hsv_points_def Let_def)

lemma hsv_points_mid: "hsv_points p step ! (step + 1) = (getHue p, getSaturation p, getValue p)"
  by (simp add: hsv_points_def Let_def nth_append)

lemma hsv_points_last:
  "last (hsv_points p step) =
     (getHue p,
      js_sub (Fin 100) (js_mul (Fin 0)
        (js_round (js_div (js_sub (Fin 100) (getSaturation p)) (Fin (real (step + 1)))))),
      0)"
  by (simp add: hsv_points_def Let_def last_map last_rev hd_upt del: upt_Suc)

lemma hsv_points_first:
  "hsv_points p step ! 0 =
     (getHue p, js_mul (Fin 0) (js_round (js_div (getSaturation p) (Fin (real (step + 1))))), 100)"
  by (simp add: hsv_points_def Let_def nth_append upt_conv_Cons del: upt_Suc)

text \<open>
  Claim C6. \<open>getMonochromaticColors\<close> returns \<open>2 * (step + 1) + 1\<close> colours, and
  the one at index \<open>step + 1\<close> is the conversion of the hue, the saturation and the
  value of the point, whatever the conversion function is.
\<close>

theorem getMonochromaticColors_length_midpoint:
  "length (getMonochromaticColors hsvToRgb p step) = 2 * (step + 1) + 1
   \<and> getMonochromaticColors hsvToRgb p step ! (step + 1)
       = hsvToRgb (getHue p) (getSaturation p) (getValue p)"
  using hsv_points_mid [of p step]
  by (simp add: getMonochromaticColors_def hsv_points_length)

text \<open>
  Claim C10. For channels in \<open>[0, 255]\<close> and a positive largest channel,
  \<open>getSaturation\<close> returns \<open>(max - min) / max\<close> of the channels over 255, which is
  the same ratio of the channels themselves and lies in \<open>[0, 1]\<close>. The fraction goes
  unscaled into the middle HSV triple, whereas the formulas of the two sides count
  the saturation in percent: the last triple has saturation 100.
\<close>

theorem getSaturation_unit_fraction:
  assumes "0 \<le> r \<and> r \<le> 255 \<and> 0 \<le> g \<and> g \<le> 255 \<and> 0 \<le> b \<and> b \<le> 255"
      and "0 < max r (max g b)"
  shows "\<exists>s. getSaturation (r, g, b) = Fin s
           \<and> s = (max (r / 255) (max (g / 255) (b / 255)) - min (r / 255) (min (g / 255) (b / 255)))
                 / max (r / 255) (max (g / 255) (b / 255))
           \<and> s = (max r (max g b) - min r (min g b)) / max r (max g b)
           \<and> 0 \<le> s \<and> s \<le> 1
           \<and> hsv_points (r, g, b) step ! (step + 1) = (getHue (r, g, b), Fin s, getValue (r, g, b))
           \<and> hsv_saturation (last (hsv_points (r, g, b) step)) = Fin 100"
proof -
  let ?s = "(max r (max g b) - min r (min g b)) / max r (max g b)"
  have sat: "getSaturation (r, g, b) = Fin ?s" using assms(2) by (rule saturation_value)
  have mx: "max (r / 255) (max (g / 255) (b / 255)) = max r (max g b) / 255"
    by (auto simp: max_def)
  have mn: "min (r / 255) (min (g / 255) (b / 255)) = min r (min g b) / 255"
    by (auto simp: min_def)
  have eq: "?s = (max (r / 255) (max (g / 255) (b / 255)) - min (r / 255) (min (g / 255) (b / 255)))
                 / max (r / 255) (max (g / 255) (b / 255))"
    unfolding mx mn by (simp only: frac255)
  have rng: "0 \<le> ?s \<and> ?s \<le> 1" using assms by (auto simp: max_def min_def field_simps)
  have mid: "hsv_points (r, g, b) step ! (step + 1) = (getHue (r, g, b), Fin ?s, getValue (r, g, b))"
    unfolding hsv_points_mid sat ..
  have lst: "hsv_saturation (last (hsv_points (r, g, b) step)) = Fin 100"
    unfolding hsv_points_last sat by (simp add: hsv_saturation_def)
  from sat eq rng mid lst show ?thesis by blast
qed

theorem getSaturation_unit_fraction_witness:
  "getSaturation (255, 0, 0) = Fin 1
   \<and> hsv_points (255, 0, 0) 3 ! 4 = (getHue (255, 0, 0), Fin 1, getValue (255, 0, 0))
   \<and> hsv_saturation (last (hsv_points (255, 0, 0) 3)) = Fin 100"
  using getSaturation_unit_fraction [of 255 0 0 3] by simp

lemma hsv_points_example:
  "hsv_points (100, 80, 80) 0 = [(0, Fin 0, 100), (0, Fin (1 / 5), 2000 / 51), (0, Fin 100, 0)]"
  by (simp add: hsv_points_def Let_def math_round_def getHue_examples)

lemma hsv_points_hue: "x \<in> set (hsv_points p step) \<Longrightarrow> hsv_hue x = getHue p"
  by (auto simp: hsv_points_def Let_def hsv_hue_def)

lemma hsv_points_take:
  "map hsv_value (take (step + 1) (hsv_points p step)) =
     map (\<lambda>i. 100 - real i * math_round ((100 - getValue p) / real (step + 1))) [0..<step + 1]"
  by (simp add: hsv_points_def Let_def hsv_value_def comp_def del: upt_Suc)

lemma hsv_points_drop:
  "map hsv_value (drop (step + 2) (hsv_points p step)) =
     map (\<lambda>i. real i * math_round (getValue p / real (step + 1))) (rev [0..<step + 1])"
  by (simp add: hsv_points_def Let_def hsv_value_def comp_def del: upt_Suc)

lemma math_round_nonneg: "0 \<le> x \<Longrightarrow> 0 \<le> math_round x"
  by (simp add: math_round_def)

lemma getValue_range:
  assumes "0 \<le> r \<and> r \<le> 255 \<and> 0 \<le> g \<and> g \<le> 255 \<and> 0 \<le> b \<and> b \<le> 255"
  shows "0 \<le> getValue (r, g, b) \<and> getValue (r, g, b) \<le> 100"
  using assms by (auto simp: max_def)

lemma math_round_close: "\<bar>math_round x - x\<bar> \<le> 1 / 2"
  unfolding math_round_def by linarith

lemma hsv_points_before:
  assumes "i < step + 1"
  shows "hsv_value (hsv_points p step ! i)
           = 100 - real i * math_round ((100 - getValue p) / real (step + 1))"
  using assms by (simp add: hsv_points_def Let_def hsv_value_def nth_append del: upt_Suc)

lemma hsv_points_after:
  assumes "j < step + 1"
  shows "hsv_value (hsv_points p step ! (step + 2 + j))
           = real (step - j) * math_round (getValue p / real (step + 1))"
  using assms
  by (simp add: hsv_points_def Let_def hsv_value_def nth_append rev_nth del: upt_Suc)

lemma hsv_points_example_rounding:
  "hsv_points (249, 0, 0) 3 =
     [(0, Fin 0, 100), (0, Fin 0, 99), (0, Fin 0, 98), (0, Fin 0, 97), (0, Fin 1, 1660 / 17),
      (0, Fin 25, 72), (0, Fin 50, 48), (0, Fin 75, 24), (0, Fin 100, 0)]"
  by (simp add: hsv_points_def Let_def math_round_def getHue.simps js_rem_def round_double_0
      numeral_3_eq_3 upt_rec)

lemma abs_scale: "0 \<le> (a::real) \<Longrightarrow> \<bar>a * c - a * x\<bar> = a * \<bar>c - x\<bar>"
  by (simp add: right_diff_distrib [symmetric] abs_mult)

lemma side_before:
  assumes v: "0 \<le> v" "v \<le> 100" and i: "i < step + 1"
  shows "\<bar>(100 - real i * math_round ((100 - v) / real (step + 1)))
            - (100 - real i * ((100 - v) / real (step + 1)))\<bar> \<le> real i / 2
         \<and> v - real step / 2 \<le> 100 - real i * math_round ((100 - v) / real (step + 1))
         \<and> 100 - real i * math_round ((100 - v) / real (step + 1)) \<le> 100"
proof -
  let ?x = "(100 - v) / real (step + 1)"
  let ?c = "math_round ?x"
  have c: "\<bar>?c - ?x\<bar> \<le> 1 / 2" by (rule math_round_close)
  have c0: "0 \<le> ?c" using v by (simp add: math_round_def)
  have "(100 - real i * ?c) - (100 - real i * ?x) = - (real i * ?c - real i * ?x)"
    by (simp only: minus_diff_eq)
  then have "\<bar>(100 - real i * ?c) - (100 - real i * ?x)\<bar> = \<bar>real i * ?c - real i * ?x\<bar>"
    by (simp only: abs_minus_cancel)
  also have "\<dots> = real i * \<bar>?c - ?x\<bar>" by (rule abs_scale) simp
  also have "\<dots> \<le> real i * (1 / 2)" using c by (intro mult_left_mono) simp_all
  finally have close: "\<bar>(100 - real i * ?c) - (100 - real i * ?x)\<bar> \<le> real i / 2" by simp
  have x0: "0 \<le> ?x" using v by simp
  have "real i * ?x \<le> real (step + 1) * ?x" using i x0 by (intro mult_right_mono) simp_all
  also have "\<dots> = 100 - v" by simp
  finally have ix: "real i * ?x \<le> 100 - v" .
  have "real i \<le> real step" using i by simp
  with close ix have low: "v - real step / 2 \<le> 100 - real i * ?c" by linarith
  have "0 \<le> real i * ?c" using c0 by simp
  then have up: "100 - real i * ?c \<le> 100" by simp
  from close low up show ?thesis by blast
qed

lemma side_after:
  assumes v: "0 \<le> v" "v \<le> 100" and m: "m \<le> step"
  shows "\<bar>real m * math_round (v / real (step + 1)) - real m * (v / real (step + 1))\<bar> \<le> real m / 2
         \<and> real m * math_round (v / real (step + 1)) \<le> v + real step / 2
         \<and> 0 \<le> real m * math_round (v / real (step + 1))"
proof -
  let ?x = "v / real (step + 1)"
  let ?c = "math_round ?x"
  have c: "\<bar>?c - ?x\<bar> \<le> 1 / 2" by (rule math_round_close)
  have c0: "0 \<le> ?c" using v by (simp add: math_round_def)
  have "\<bar>real m * ?c - real m * ?x\<bar> = real m * \<bar>?c - ?x\<bar>"
    by (rule abs_scale) simp
  also have "\<dots> \<le> real m * (1 / 2)" using c by (intro mult_left_mono) simp_all
  finally have close: "\<bar>real m * ?c - real m * ?x\<bar> \<le> real m / 2" by simp
  have x0: "0 \<le> ?x" using v by simp
  have "real m * ?x \<le> real (step + 1) * ?x" using m x0 by (intro mult_right_mono) simp_all
  also have "\<dots> = v" by simp
  finally have mx: "real m * ?x \<le> v" .
  have "real m \<le> real step" using m by simp
  with close mx have up: "real m * ?c \<le> v + real step / 2" by linarith
  have "0 \<le> real m * ?c" using c0 by simp
  with close up show ?thesis by blast
qed

text \<open>
  The rounding of the two steps keeps the sides from being light and dark outright:
  for \<open>(249, 0, 0)\<close> and step 3 the triple before the middle one has value 97, below
  the original's 1660/17.
\<close>

lemma hsv_points_not_light_to_dark: "\<not> light_to_dark (hsv_points (249, 0, 0) 3)"
  by (simp add: light_to_dark_def hsv_points_example_rounding hsv_value_def)

text \<open>
  Claim C2, as amended. For channels in \<open>[0, 255]\<close> the colours are the conversions
  of the HSV triples in their order, the middle triple is the original's and every
  triple has the original's hue. The values run from 100 at the first triple to 0 at
  the last and never rise on either side of the middle; unless the point is black
  the first triple is white, with saturation 0, and the last is black, with
  saturation 100. With \<open>v\<close> the original's value and \<open>n = step + 1\<close>, the triple at
  index \<open>i\<close> before the middle has a value within \<open>i / 2\<close> of \<open>100 - i * (100 - v) / n\<close>,
  and the \<open>j\<close>-th triple after the middle a value within \<open>(step - j) / 2\<close> of
  \<open>(step - j) * v / n\<close>. So the values before the middle lie in
  \<open>[v - step / 2, 100]\<close> and those after it in \<open>[0, v + step / 2]\<close>: the light side
  comes first and the dark side last, each up to the rounding of its step.
\<close>

theorem getMonochromaticColors_light_to_dark:
  assumes "0 \<le> r \<and> r \<le> 255 \<and> 0 \<le> g \<and> g \<le> 255 \<and> 0 \<le> b \<and> b \<le> 255"
  shows "getMonochromaticColors hsvToRgb (r, g, b) step
           = map (\<lambda>(h, s, v). hsvToRgb h s v) (hsv_points (r, g, b) step)
       \<and> hsv_points (r, g, b) step ! (step + 1)
           = (getHue (r, g, b), getSaturation (r, g, b), getValue (r, g, b))
       \<and> list_all (\<lambda>x. hsv_hue x = getHue (r, g, b)) (hsv_points (r, g, b) step)
       \<and> hsv_value (hsv_points (r, g, b) step ! 0) = 100
       \<and> hsv_value (last (hsv_points (r, g, b) step)) = 0
       \<and> sorted (rev (map hsv_value (take (step + 1) (hsv_points (r, g, b) step))))
       \<and> sorted (rev (map hsv_value (drop (step + 2) (hsv_points (r, g, b) step))))
       \<and> (0 < max r (max g b) \<longrightarrow>
            hsv_points (r, g, b) step ! 0 = (getHue (r, g, b), Fin 0, 100)
            \<and> last (hsv_points (r, g, b) step) = (getHue (r, g, b), Fin 100, 0))
       \<and> (\<forall>i<step + 1.
             \<bar>hsv_value (hsv_points (r, g, b) step ! i)
                - (100 - real i * ((100 - getValue (r, g, b)) / real (step + 1)))\<bar> \<le> real i / 2
             \<and> getValue (r, g, b) - real step / 2 \<le> hsv_value (hsv_points (r, g, b) step ! i)
             \<and> hsv_value (hsv_points (r, g, b) step ! i) \<le> 100)
       \<and> (\<forall>j<step + 1.
             \<bar>hsv_value (hsv_points (r, g, b) step ! (step + 2 + j))
                - real (step - j) * (getValue (r, g, b) / real (step + 1))\<bar> \<le> real (step - j) / 2
             \<and> 0 \<le> hsv_value (hsv_points (r, g, b) step ! (step + 2 + j))
             \<and> hsv_value (hsv_points (r, g, b) step ! (step + 2 + j))
                 \<le> getValue (r, g, b) + real step / 2)"
proof -
  let ?p = "(r, g, b)"
  have ends: "hsv_points ?p step ! 0 = (getHue ?p, Fin 0, 100)
              \<and> last (hsv_points ?p step) = (getHue ?p, Fin 100, 0)"
    if "0 < max r (max g b)"
    unfolding hsv_points_first hsv_points_last saturation_value [OF that] by simp
  have v: "0 \<le> getValue ?p \<and> getValue ?p \<le> 100" using assms by (rule getValue_range)
  have c01: "0 \<le> math_round ((100 - getValue ?p) / real (step + 1))"
    using v by (intro math_round_nonneg) simp
  have c11: "0 \<le> math_round (getValue ?p / real (step + 1))"
    using v by (intro math_round_nonneg) simp
  have hue: "list_all (\<lambda>x. hsv_hue x = getHue ?p) (hsv_points ?p step)"
    using hsv_points_hue by (auto simp: list_all_iff)
  have first: "hsv_value (hsv_points ?p step ! 0) = 100"
    unfolding hsv_points_first by (simp add: hsv_value_def)
  have lst: "hsv_value (last (hsv_points ?p step)) = 0"
    unfolding hsv_points_last by (simp add: hsv_value_def)
  have left: "sorted (rev (map hsv_value (take (step + 1) (hsv_points ?p step))))"
    unfolding hsv_points_take sorted_rev_iff_nth_mono
    using c01 by (auto simp del: upt_Suc intro!: mult_right_mono)
  have right: "sorted (rev (map hsv_value (drop (step + 2) (hsv_points ?p step))))"
    unfolding hsv_points_drop rev_map rev_rev_ident sorted_iff_nth_mono
    using c11 by (auto simp del: upt_Suc intro!: mult_right_mono)
  have before: "\<forall>i<step + 1.
             \<bar>hsv_value (hsv_points ?p step ! i)
                - (100 - real i * ((100 - getValue ?p) / real (step + 1)))\<bar> \<le> real i / 2
             \<and> getValue ?p - real step / 2 \<le> hsv_value (hsv_points ?p step ! i)
             \<and> hsv_value (hsv_points ?p step ! i) \<le> 100"
  proof (intro allI impI)
    fix i assume i: "i < step + 1"
    from side_before[of "getValue ?p" i step] v i show
      "\<bar>hsv_value (hsv_points ?p step ! i)
                - (100 - real i * ((100 - getValue ?p) / real (step + 1)))\<bar> \<le> real i / 2
             \<and> getValue ?p - real step / 2 \<le> hsv_value (hsv_points ?p step ! i)
             \<and> hsv_value (hsv_points ?p step ! i) \<le> 100"
      unfolding hsv_points_before[OF i] by blast
  qed
  have after: "\<forall>j<step + 1.
             \<bar>hsv_value (hsv_points ?p step ! (step + 2 + j))
                - real (step - j) * (getValue ?p / real (step + 1))\<bar> \<le> real (step - j) / 2
             \<and> 0 \<le> hsv_value (hsv_points ?p step ! (step + 2 + j))
             \<and> hsv_value (hsv_points ?p step ! (step + 2 + j)) \<le> getValue ?p + real step / 2"
  proof (intro allI impI)
    fix j assume j: "j < step + 1"
    have m: "step - j \<le> step" by simp
    from side_after[of "getValue ?p" "step - j" step] v m show
      "\<bar>hsv_value (hsv_points ?p step ! (step + 2 + j))
                - real (step - j) * (getValue ?p / real (step + 1))\<bar> \<le> real (step - j) / 2
             \<and> 0 \<le> hsv_value (hsv_points ?p step ! (step + 2 + j))
             \<and> hsv_value (hsv_points ?p step ! (step + 2 + j)) \<le> getValue ?p + real step / 2"
      unfolding hsv_points_after[OF j] by blast
  qed
  have conv: "getMonochromaticColors hsvToRgb ?p step
           = map (\<lambda>(h, s, v). hsvToRgb h s v) (hsv_points ?p step)"
    by (simp add: getMonochromaticColors_def)
  from conv hsv_points_mid[of ?p step] hue first lst left right ends before after
  show ?thesis by blast
qed

theorem getMonochromaticColors_light_to_dark_witness:
  "getMonochromaticColors (\<lambda>h s v. (h, s, v)) (249, 0, 0) 3
     = map (\<lambda>(h, s, v). (h, s, v)) (hsv_points (249, 0, 0) 3)
   \<and> hsv_value (hsv_points (249, 0, 0) 3 ! 0) = 100
   \<and> hsv_value (last (hsv_points (249, 0, 0) 3)) = 0
   \<and> hsv_value (hsv_points (249, 0, 0) 3 ! 3) = 97
   \<and> getValue (249, 0, 0) - real 3 / 2 \<le> hsv_value (hsv_points (249, 0, 0) 3 ! 3)
   \<and> hsv_value (hsv_points (249, 0, 0) 3 ! 5) \<le> getValue (249, 0, 0) + real 3 / 2
   \<and> sorted (rev (map hsv_value (take 4 (hsv_points (249, 0, 0) 3))))"
proof -
  note t = getMonochromaticColors_light_to_dark [of 249 0 0 "\<lambda>h s v. (h, s, v)" 3]
  have h: "0 \<le> (249::real) \<and> (249::real) \<le> 255 \<and> 0 \<le> (0::real) \<and> (0::real) \<le> 255
           \<and> 0 \<le> (0::real) \<and> (0::real) \<le> 255" by simp
  from t [OF h] have
    a: "getMonochromaticColors (\<lambda>h s v. (h, s, v)) (249, 0, 0) 3
          = map (\<lambda>(h, s, v). (h, s, v)) (hsv_points (249, 0, 0) 3)"
    and b: "hsv_value (hsv_points (249, 0, 0) 3 ! 0) = 100"
    and c: "hsv_value (last (hsv_points (249, 0, 0) 3)) = 0"
    and d: "sorted (rev (map hsv_value (take (3 + 1) (hsv_points (249, 0, 0) 3))))"
    and e: "\<forall>i<3 + 1. getValue (249, 0, 0) - real 3 / 2 \<le> hsv_value (hsv_points (249, 0, 0) 3 ! i)"
    and f: "\<forall>j<3 + 1. hsv_value (hsv_points (249, 0, 0) 3 ! (3 + 2 + j))
                 \<le> getValue (249, 0, 0) + real 3 / 2"
    by blast+
  from e have e3: "getValue (249, 0, 0) - real 3 / 2 \<le> hsv_value (hsv_points (249, 0, 0) 3 ! 3)"
    by simp
  from f [rule_format, of 0] have f0:
    "hsv_value (hsv_points (249, 0, 0) 3 ! 5) \<le> getValue (249, 0, 0) + real 3 / 2" by simp
  have g: "hsv_value (hsv_points (249, 0, 0) 3 ! 3) = 97"
    by (simp add: hsv_points_example_rounding hsv_value_def)
  from d have d': "sorted (rev (map hsv_value (take 4 (hsv_points (249, 0, 0) 3))))" by simp
  from a b c g e3 f0 d' show ?thesis by blast
qed

text \<open>
  Claim C2 as stated fails: for the point \<open>(100, 80, 80)\<close> and step 0 the triples
  are white, the original and black, in that order, so the side before the middle
  is the light one.
\<close>

theorem getMonochromaticColors_not_dark_to_light:
  "getMonochromaticColors (\<lambda>h s v. (h, s, v)) (100, 80, 80) 0
     = [(0, Fin 0, 100), (0, Fin (1 / 5), 2000 / 51), (0, Fin 100, 0)]
   \<and> \<not> dark_to_light (hsv_points (100, 80, 80) 0)"
  by (simp add: getMonochromaticColors_def dark_to_light_def hsv_points_example hsv_value_def)

section \<open>Properties of the sort\<close>












section \<open>Properties of k-means\<close>

subsection \<open>The nearest centre\<close>

lemma indexOf_mem: "v \<in> set xs \<Longrightarrow> 0 \<le> indexOf xs v \<and> indexOf xs v < int (length xs)"
  by (induction xs) (auto simp: Let_def)

lemma indexOf_notmem: "v \<notin> set xs \<Longrightarrow> indexOf xs v = - 1"
  by (induction xs) (auto simp: Let_def)

lemma indexOf_nth: "v \<in> set xs \<Longrightarrow> xs ! nat (indexOf xs v) = v"
  by (induction xs) (auto simp: Let_def nat_add_distrib dest: indexOf_mem)

lemma indexOf_first: "v \<in> set xs \<Longrightarrow> j < nat (indexOf xs v) \<Longrightarrow> xs ! j \<noteq> v"
proof (induction xs arbitrary: j)
  case Nil
  then show ?case by simp
next
  case (Cons x xs)
  show ?case
  proof (cases "x = v")
    case True
    with Cons.prems show ?thesis by simp
  next
    case False
    with Cons.prems have mem: "v \<in> set xs" by simp
    then have ge: "0 \<le> indexOf xs v" using indexOf_mem[of v xs] by simp
    with False have eq: "indexOf (x # xs) v = indexOf xs v + 1" by (simp add: Let_def)
    show ?thesis
    proof (cases j)
      case 0
      with False show ?thesis by simp
    next
      case (Suc j')
      with Cons.prems(2) eq ge have "j' < nat (indexOf xs v)" by simp
      with Cons.IH mem Suc show ?thesis by simp
    qed
  qed
qed

lemma fold_min_mem: "fold min ds (d::real) \<in> set (d # ds)"
  by (induction ds arbitrary: d) (auto simp: min_def)

lemma fold_min_le: "x \<in> set (d # ds) \<Longrightarrow> fold min ds (d::real) \<le> x"
proof (induction ds arbitrary: d x)
  case Nil
  then show ?case by simp
next
  case (Cons a ds)
  have low: "fold min ds (min a d) \<le> min a d" using Cons.IH[of "min a d" "min a d"] by simp
  from Cons.prems have "x \<in> set ds \<or> x = a \<or> x = d" by auto
  then show ?case
  proof (elim disjE)
    assume "x \<in> set ds"
    then show ?thesis using Cons.IH[of x "min a d"] by simp
  next
    assume "x = a"
    with low show ?thesis by simp
  next
    assume "x = d"
    with low show ?thesis by simp
  qed
qed

lemma target_index_range:
  "cs \<noteq> [] \<Longrightarrow> 0 \<le> target_index cs p \<and> target_index cs p < int (length cs)"
proof -
  assume "cs \<noteq> []"
  then obtain c rest where cs: "cs = c # rest" by (cases cs) auto
  let ?ds = "map (\<lambda>point. euclideanDistance point p) cs"
  have "fold min (tl ?ds) (hd ?ds) \<in> set ?ds"
    using fold_min_mem[of "tl ?ds" "hd ?ds"] by (simp add: cs)
  then show ?thesis
    using indexOf_mem[of "fold min (tl ?ds) (hd ?ds)" ?ds]
    by (simp add: target_index_def cs)
qed

lemma target_index_empty: "target_index [] p = - 1"
  by (simp add: target_index_def)

lemma target_index_first_min:
  assumes "cs \<noteq> []"
  shows "nat (target_index cs p) < length cs
    \<and> (\<forall>i<length cs. euclideanDistance (cs ! nat (target_index cs p)) p \<le> euclideanDistance (cs ! i) p)
    \<and> (\<forall>i<nat (target_index cs p). euclideanDistance (cs ! nat (target_index cs p)) p < euclideanDistance (cs ! i) p)"
proof -
  from assms obtain c rest where cs: "cs = c # rest" by (cases cs) auto
  let ?ds = "map (\<lambda>point. euclideanDistance point p) cs"
  let ?m = "fold min (tl ?ds) (hd ?ds)"
  let ?j = "nat (target_index cs p)"
  have ti: "target_index cs p = indexOf ?ds ?m" by (simp add: target_index_def cs)
  have mem: "?m \<in> set ?ds" using fold_min_mem[of "tl ?ds" "hd ?ds"] by (simp add: cs)
  have le: "\<And>x. x \<in> set ?ds \<Longrightarrow> ?m \<le> x" using fold_min_le[of _ "hd ?ds" "tl ?ds"] by (simp add: cs)
  have rng: "?j < length cs" using target_index_range[OF assms, of p] by linarith
  have at: "?ds ! ?j = ?m" using indexOf_nth[OF mem] ti by simp
  then have atj: "euclideanDistance (cs ! ?j) p = ?m" using rng by simp
  have all: "\<forall>i<length cs. euclideanDistance (cs ! ?j) p \<le> euclideanDistance (cs ! i) p"
  proof (intro allI impI)
    fix i assume i: "i < length cs"
    then have "?ds ! i \<in> set ?ds" by (metis length_map nth_mem)
    from le[OF this] show "euclideanDistance (cs ! ?j) p \<le> euclideanDistance (cs ! i) p"
      using i atj by simp
  qed
  have first: "\<forall>i<?j. euclideanDistance (cs ! ?j) p < euclideanDistance (cs ! i) p"
  proof (intro allI impI)
    fix i assume i: "i < ?j"
    then have il: "i < length cs" using rng by simp
    have "?ds ! i \<noteq> ?m" using indexOf_first[OF mem, of i] i ti by simp
    moreover have "?m \<le> ?ds ! i" using le[of "?ds ! i"] il by (metis length_map nth_mem)
    ultimately show "euclideanDistance (cs ! ?j) p < euclideanDistance (cs ! i) p"
      using il atj by simp
  qed
  from rng all first show ?thesis by blast
qed

lemma push_cluster_length: "push_cluster cl i p = Inr cl' \<Longrightarrow> length cl' = length cl"
  by (auto simp: push_cluster_def split: if_splits)

lemma assign_length: "assign cs pxs cl = Inr cl' \<Longrightarrow> length cl' = length cl"
  by (induction pxs arbitrary: cl) (auto split: sum.splits dest: push_cluster_length)

lemma assign_ok:
  "cs \<noteq> [] \<Longrightarrow> length cs \<le> length cl \<Longrightarrow> \<exists>cl'. assign cs pxs cl = Inr cl'"
proof (induction pxs arbitrary: cl)
  case Nil
  then show ?case by simp
next
  case (Cons p pxs)
  have r: "0 \<le> target_index cs p \<and> target_index cs p < int (length cl)"
    using target_index_range[OF Cons.prems(1), of p] Cons.prems(2) by simp
  then obtain cl1 where p1: "push_cluster cl (target_index cs p) p = Inr cl1"
    by (simp add: push_cluster_def)
  then have "length cl1 = length cl" by (rule push_cluster_length)
  with Cons.IH[of cl1] Cons.prems p1 show ?case by simp
qed

lemma assign_filter:
  "assign cs pxs cl = Inr cl' \<Longrightarrow> j < length cl \<Longrightarrow>
   cl' ! j = cl ! j @ filter (\<lambda>p. target_index cs p = int j) pxs"
proof (induction pxs arbitrary: cl)
  case Nil
  then show ?case by simp
next
  case (Cons p pxs)
  from Cons.prems(1) obtain cl1 where p1: "push_cluster cl (target_index cs p) p = Inr cl1"
    and a1: "assign cs pxs cl1 = Inr cl'"
    by (auto split: sum.splits)
  from p1 have r: "0 \<le> target_index cs p" "target_index cs p < int (length cl)"
    and cl1: "cl1 = cl[nat (target_index cs p) := cl ! nat (target_index cs p) @ [p]]"
    by (auto simp: push_cluster_def split: if_splits)
  have len: "j < length cl1" using Cons.prems(2) cl1 by simp
  have "cl1 ! j = cl ! j @ (if target_index cs p = int j then [p] else [])"
    using cl1 r Cons.prems(2) by (auto simp: nth_list_update)
  with Cons.IH[OF a1 len] show ?case by simp
qed

lemma mset_concat_update:
  "i < length cl \<Longrightarrow> mset (concat (cl[i := cl ! i @ [p]])) = mset (concat cl) + {#p#}"
proof (induction cl arbitrary: i)
  case Nil
  then show ?case by simp
next
  case (Cons c cl)
  then show ?case by (cases i) auto
qed

lemma assign_mset:
  "assign cs pxs cl = Inr cl' \<Longrightarrow> mset (concat cl') = mset (concat cl) + mset pxs"
proof (induction pxs arbitrary: cl)
  case Nil
  then show ?case by simp
next
  case (Cons p pxs)
  from Cons.prems(1) obtain cl1 where p1: "push_cluster cl (target_index cs p) p = Inr cl1"
    and a1: "assign cs pxs cl1 = Inr cl'"
    by (auto split: sum.splits)
  from p1 have "mset (concat cl1) = mset (concat cl) + {#p#}"
    by (auto simp: push_cluster_def mset_concat_update split: if_splits)
  with Cons.IH[OF a1] show ?case by simp
qed

lemma copy_centers_Some: "copy_centers cs = Inr r \<Longrightarrow> cs = map Some r"
proof (induction cs arbitrary: r)
  case Nil
  then show ?case by simp
next
  case (Cons c cs)
  then show ?case by (cases c) (auto split: sum.splits)
qed

lemma copy_centers_ok: "None \<notin> set cs \<Longrightarrow> \<exists>r. copy_centers cs = Inr r"
proof (induction cs)
  case Nil
  then show ?case by simp
next
  case (Cons c cs)
  then show ?case by (cases c) auto
qed

lemma update_centers_length: "length (fst (update_centers h px d cl)) = length cl"
  by (induction cl arbitrary: d) (simp_all add: Let_def case_prod_unfold)

lemma random_index:
  assumes "0 \<le> r" "r < 1" "xs \<noteq> []"
  shows "nth_opt xs \<lfloor>r * real (length xs)\<rfloor> \<noteq> None"
proof -
  have pos: "0 < real (length xs)" using assms(3) by simp
  have "0 \<le> r * real (length xs)" using assms(1) by simp
  then have lo: "0 \<le> \<lfloor>r * real (length xs)\<rfloor>" by simp
  have "r * real (length xs) < real (length xs)" using assms(2) pos by simp
  then have hi: "\<lfloor>r * real (length xs)\<rfloor> < int (length xs)" by (simp add: floor_less_iff)
  from lo hi show ?thesis by (simp add: nth_opt_def)
qed

lemma update_centers_defined:
  assumes "\<forall>n. 0 \<le> random h n \<and> random h n < 1" "px \<noteq> []"
  shows "None \<notin> set (fst (update_centers h px d cl))"
proof (induction cl arbitrary: d)
  case Nil
  then show ?case by simp
next
  case (Cons c cl)
  have "None \<noteq> nth_opt px \<lfloor>random h d * real (length px)\<rfloor>"
    using random_index[of "random h d" px] assms by (simp add: eq_commute)
  with Cons.IH[of d] Cons.IH[of "Suc d"] show ?case
    by (simp add: Let_def case_prod_unfold)
qed

lemma kmeans_pass_frame:
  assumes "kmeans_pass h k s = Inr s'"
  shows "pixels_array s' = pixels_array s \<and> iterations s' = iterations s
         \<and> passes s' = Suc (passes s) \<and> length (centers s') = k
         \<and> centers s = map Some (old_centers s')"
proof -
  from assms obtain cs clusters where
    c: "copy_centers (centers s) = Inr cs" and
    a: "assign cs (pixels_array s) (replicate k []) = Inr clusters" and
    s': "s' = s\<lparr>old_centers := cs,
               centers := fst (update_centers h (pixels_array s) (draws s) clusters),
               draws := snd (update_centers h (pixels_array s) (draws s) clusters),
               passes := Suc (passes s)\<rparr>"
    by (auto simp: kmeans_pass_def Let_def split: sum.splits prod.splits)
  have "length clusters = k" using assign_length[OF a] by simp
  then show ?thesis using s' copy_centers_Some[OF c] by (simp add: update_centers_length)
qed

subsection \<open>The loop\<close>

lemma kmeans_pass_ok:
  assumes "\<forall>n. 0 \<le> random h n \<and> random h n < 1" "loop_inv k s"
  shows "\<exists>s'. kmeans_pass h k s = Inr s' \<and> loop_inv k (s'\<lparr>iterations := i\<rparr>)"
proof -
  from assms(2) have px: "pixels_array s \<noteq> []" and ne: "centers s \<noteq> []"
    and le: "length (centers s) \<le> k" and df: "None \<notin> set (centers s)"
    by (auto simp: loop_inv_def)
  from copy_centers_ok[OF df] obtain cs where c: "copy_centers (centers s) = Inr cs" by blast
  have cs: "centers s = map Some cs" using copy_centers_Some[OF c] .
  then have csne: "cs \<noteq> []" and csle: "length cs \<le> length (replicate k ([]::point list))"
    using ne le by auto
  from assign_ok[OF csne csle] obtain clusters
    where a: "assign cs (pixels_array s) (replicate k []) = Inr clusters" by blast
  have lc: "length clusters = k" using assign_length[OF a] by simp
  let ?u = "update_centers h (pixels_array s) (draws s) clusters"
  let ?s' = "s\<lparr>old_centers := cs, centers := fst ?u, draws := snd ?u, passes := Suc (passes s)\<rparr>"
  have run: "kmeans_pass h k s = Inr ?s'"
    using c a by (simp add: kmeans_pass_def Let_def split: prod.splits)
  have k: "0 < k" using ne le by (cases k) auto
  have "loop_inv k (?s'\<lparr>iterations := i\<rparr>)"
    using px update_centers_defined[OF assms(1) px, of "draws s" clusters]
      update_centers_length[of h "pixels_array s" "draws s" clusters] lc k cs le
    by (auto simp: loop_inv_def)
  with run show ?thesis by blast
qed

lemma isConverged_loop_spec:
  "length old \<le> length new \<Longrightarrow> None \<notin> set new \<Longrightarrow>
   isConverged_loop old new = Inr (\<forall>i<length old. euclideanDistance (old ! i) (the (new ! i)) \<le> 1)"
proof (induction old new rule: isConverged_loop.induct)
  case (1 new_centers)
  then show ?case by simp
next
  case (2 old olds)
  then show ?case by simp
next
  case (3 old olds news)
  then show ?case by simp
next
  case (4 old olds new news)
  then show ?case by (auto simp: less_Suc_eq_0_disj)
qed

lemma isConverged_spec:
  "length old \<le> length new \<Longrightarrow> None \<notin> set new \<Longrightarrow>
   isConverged old new =
     Inr (old \<noteq> [] \<and> (\<forall>i<length old. euclideanDistance (old ! i) (the (new ! i)) \<le> 1))"
  by (cases old) (simp_all add: isConverged_def isConverged_loop_spec del: isConverged_loop.simps)

lemma kmeans_loop_cases:
  assumes "kmeans_loop h k m s = Inr s'"
  obtains (converged) "isConverged (old_centers s) (centers s) = Inr True" "s' = s"
  | (budget) "isConverged (old_centers s) (centers s) = Inr False" "\<not> iterations s \<le> m"
      "s' = s\<lparr>iterations := iterations s + 1\<rparr>"
  | (step) s1 where "isConverged (old_centers s) (centers s) = Inr False" "iterations s \<le> m"
      "kmeans_pass h k s = Inr s1"
      "kmeans_loop h k m (s1\<lparr>iterations := iterations s + 1\<rparr>) = Inr s'"
  using assms
  by (subst (asm) kmeans_loop.simps) (auto split: sum.splits bool.splits if_splits)

lemma loop_pixels:
  "kmeans_loop h k m s = Inr s' \<Longrightarrow> pixels_array s' = pixels_array s"
proof (induction h k m s rule: kmeans_loop.induct)
  case (1 h k m s)
  from "1.prems" show ?case
  proof (cases rule: kmeans_loop_cases)
    case converged
    then show ?thesis by simp
  next
    case budget
    then show ?thesis by simp
  next
    case (step s1)
    from "1.IH"[of False s1] step
    have "pixels_array s' = pixels_array (s1\<lparr>iterations := iterations s + 1\<rparr>)" by simp
    with kmeans_pass_frame[OF step(3)] show ?thesis by simp
  qed
qed

lemma loop_passes:
  "kmeans_loop h k m s = Inr s' \<Longrightarrow>
   passes s \<le> passes s' \<and> passes s' \<le> passes s + nat (m + 1 - iterations s)"
proof (induction h k m s rule: kmeans_loop.induct)
  case (1 h k m s)
  from "1.prems" show ?case
  proof (cases rule: kmeans_loop_cases)
    case converged
    then show ?thesis by simp
  next
    case budget
    then show ?thesis by simp
  next
    case (step s1)
    from "1.IH"[of False s1] step
    have ih: "passes s1 \<le> passes s' \<and> passes s' \<le> passes s1 + nat (m + 1 - (iterations s + 1))"
      by simp
    have "passes s1 = Suc (passes s)" using kmeans_pass_frame[OF step(3)] by simp
    with ih step(2) show ?thesis by auto
  qed
qed

lemma loop_length:
  "kmeans_loop h k m s = Inr s' \<Longrightarrow> length (centers s) = k \<Longrightarrow> length (centers s') = k"
proof (induction h k m s rule: kmeans_loop.induct)
  case (1 h k m s)
  from "1.prems"(1) show ?case
  proof (cases rule: kmeans_loop_cases)
    case converged
    with "1.prems"(2) show ?thesis by simp
  next
    case budget
    with "1.prems"(2) show ?thesis by simp
  next
    case (step s1)
    have "length (centers s1) = k" using kmeans_pass_frame[OF step(3)] by simp
    with "1.IH"[of False s1] step show ?thesis by simp
  qed
qed

lemma loop_ok:
  assumes r: "\<forall>n. 0 \<le> random h n \<and> random h n < 1"
  shows "loop_inv k s \<Longrightarrow> \<exists>s'. kmeans_loop h k m s = Inr s'"
  using r
proof (induction h k m s rule: kmeans_loop.induct)
  case (1 h k m s)
  from "1.prems" have "length (old_centers s) \<le> length (centers s)" "None \<notin> set (centers s)"
    by (auto simp: loop_inv_def)
  from isConverged_spec[OF this] obtain conv
    where conv: "isConverged (old_centers s) (centers s) = Inr conv" by blast
  show ?case
  proof (cases "\<not> conv \<and> iterations s \<le> m")
    case False
    with conv show ?thesis by (subst kmeans_loop.simps) (auto split: bool.splits)
  next
    case True
    from kmeans_pass_ok[OF "1.prems"(2,1), of "iterations s + 1"] obtain s1 where
      p: "kmeans_pass h k s = Inr s1" and i: "loop_inv k (s1\<lparr>iterations := iterations s + 1\<rparr>)"
      by blast
    from "1.IH"[of conv s1] conv True p i "1.prems"(2) obtain s' where
      "kmeans_loop h k m (s1\<lparr>iterations := iterations s + 1\<rparr>) = Inr s'" by auto
    with conv True p show ?thesis by (subst kmeans_loop.simps) auto
  qed
qed
lemma host_ok_rev: "host_ok host_rev"
  by (simp add: host_ok_def host_rev_def)

lemma kmeans_init_inv:
  assumes "host_ok h" "1 \<le> k" "pixels \<noteq> []"
  shows "loop_inv k (kmeans_init h pixels k)"
proof -
  have "mset (sort_random h pixels) = mset pixels" using assms(1) by (simp add: host_ok_def)
  then have "sort_random h pixels \<noteq> []" using assms(3) by (metis mset_zero_iff)
  then show ?thesis using assms(2) by (auto simp: loop_inv_def kmeans_init_def Let_def)
qed

lemma kmeans_run_ok:
  assumes "host_ok h" "1 \<le> k" "pixels \<noteq> []"
  shows "\<exists>s. kmeans_run h pixels k m = Inr s"
  unfolding kmeans_run_def
  using loop_ok[OF _ kmeans_init_inv[OF assms]] assms(1) by (simp add: host_ok_def)

lemma kmeans_run_passes:
  "kmeans_run h pixels k m = Inr s \<Longrightarrow> passes s \<le> nat (m + 1)"
  unfolding kmeans_run_def
  by (drule loop_passes) (simp add: kmeans_init_def Let_def)

lemma kmeans_run_pixels:
  "kmeans_run h pixels k m = Inr s \<Longrightarrow> pixels_array s = sort_random h pixels"
  unfolding kmeans_run_def
  by (drule loop_pixels) (simp add: kmeans_init_def Let_def)

lemma host_ok_last: "host_ok host_last"
  by (simp add: host_ok_def host_last_def)

lemma update_centers_nth:
  "j < length cl \<Longrightarrow>
   fst (update_centers h px d cl) ! j =
     (if cl ! j = []
      then nth_opt px \<lfloor>random h (d + length (filter (\<lambda>c. c = []) (take j cl))) * real (length px)\<rfloor>
      else Some (mean_point (cl ! j)))"
proof (induction cl arbitrary: d j)
  case Nil
  then show ?case by simp
next
  case (Cons c cl)
  show ?case
  proof (cases j)
    case 0
    then show ?thesis by (simp add: Let_def case_prod_unfold)
  next
    case (Suc j')
    with Cons.prems have j': "j' < length cl" by simp
    from Cons.IH[OF j', of d] Cons.IH[OF j', of "Suc d"] Suc show ?thesis
      by (simp add: Let_def case_prod_unfold)
  qed
qed

lemma random_index_mem:
  assumes "0 \<le> r" "r < 1" "xs \<noteq> []"
  shows "\<exists>p\<in>set xs. nth_opt xs \<lfloor>r * real (length xs)\<rfloor> = Some p"
proof -
  have pos: "0 < real (length xs)" using assms(3) by simp
  have "0 \<le> r * real (length xs)" using assms(1) by simp
  then have lo: "0 \<le> \<lfloor>r * real (length xs)\<rfloor>" by simp
  have "r * real (length xs) < real (length xs)" using assms(2) pos by simp
  then have hi: "\<lfloor>r * real (length xs)\<rfloor> < int (length xs)" by (simp add: floor_less_iff)
  from lo hi have "nat \<lfloor>r * real (length xs)\<rfloor> < length xs" by linarith
  then have "xs ! nat \<lfloor>r * real (length xs)\<rfloor> \<in> set xs" by (rule nth_mem)
  with lo hi show ?thesis by (simp add: nth_opt_def)
qed

lemma kmeans_pass_centers:
  assumes "kmeans_pass h k s = Inr s'"
  shows "\<exists>cs clusters. centers s = map Some cs
           \<and> assign cs (pixels_array s) (replicate k []) = Inr clusters
           \<and> (\<forall>j<k. centers s' ! j =
                 (if clusters ! j = []
                  then nth_opt (pixels_array s)
                         \<lfloor>random h (draws s + length (filter (\<lambda>c. c = []) (take j clusters)))
                            * real (length (pixels_array s))\<rfloor>
                  else Some (mean_point (clusters ! j))))"
proof -
  from assms obtain cs clusters where
    c: "copy_centers (centers s) = Inr cs" and
    a: "assign cs (pixels_array s) (replicate k []) = Inr clusters" and
    s': "centers s' = fst (update_centers h (pixels_array s) (draws s) clusters)"
    by (auto simp: kmeans_pass_def Let_def split: sum.splits prod.splits)
  have len: "length clusters = k" using assign_length[OF a] by simp
  have "\<forall>j<k. centers s' ! j =
                 (if clusters ! j = []
                  then nth_opt (pixels_array s)
                         \<lfloor>random h (draws s + length (filter (\<lambda>c. c = []) (take j clusters)))
                            * real (length (pixels_array s))\<rfloor>
                  else Some (mean_point (clusters ! j)))"
    unfolding s' using update_centers_nth[of _ clusters h "pixels_array s" "draws s"] len by simp
  with copy_centers_Some[OF c] a show ?thesis by blast
qed

subsection \<open>Runs on small inputs\<close>

lemmas kmeans_eval = kmeans_def kmeans_run_def kmeans_init_def host_rev_def kmeans_loop.simps
  kmeans_pass_def isConverged_def target_index_def push_cluster_def sum_points_def
  mean_point_def math_round_def nth_opt_def Let_def numeral_2_eq_2 numeral_3_eq_3

lemma kmeans_run_example:
  "kmeans_run host_rev [(0, 0, 0), (0, 0, 1)] 1 100 =
     Inr \<lparr>pixels_array = [(0, 0, 1), (0, 0, 0)], centers = [Some (0, 0, 1)],
          old_centers = [(0, 0, 1)], iterations = 1, draws = 0, passes = 1\<rparr>"
  by (simp add: kmeans_eval)

lemma kmeans_identical_points:
  "kmeans host_rev [(10, 10, 10), (10, 10, 10), (10, 10, 10)] 1 100 = Inr [Some (10, 10, 10)]"
  by (simp add: kmeans_eval)

lemma kmeans_budget_spent:
  "kmeans_run host_rev [(0, 0, 0), (0, 0, 10)] 1 0 =
     Inr \<lparr>pixels_array = [(0, 0, 10), (0, 0, 0)], centers = [Some (0, 0, 5)],
          old_centers = [(0, 0, 10)], iterations = 2, draws = 0, passes = 1\<rparr>"
  by (simp add: kmeans_eval)

lemma kmeans_more_clusters_than_points:
  "kmeans host_rev [(1, 1, 1)] 3 5 = Inr [Some (1, 1, 1), Some (1, 1, 1), Some (1, 1, 1)]"
  by (simp add: kmeans_eval)

lemma kmeans_no_clusters: "kmeans host_rev [(0, 0, 0), (0, 0, 1)] 0 100 = Inl TypeError"
  by (simp add: kmeans_eval)

lemma kmeans_no_points: "kmeans host_rev [] 2 100 = Inl TypeError"
  by (simp add: kmeans_eval)

lemma assign_example:
  "assign [(0, 0, 0), (2, 0, 0)] [(1, 0, 0), (2, 0, 1)] (replicate 2 [])
     = Inr [[(1, 0, 0)], [(2, 0, 1)]]"
  by (simp add: target_index_def push_cluster_def Let_def numeral_2_eq_2)

text \<open>A pass that empties the second cluster, and the run it starts.\<close>

lemma kmeans_pass_reseed_example:
  "kmeans_pass host_last 2 (kmeans_init host_last [(9, 9, 9), (5, 5, 5), (5, 5, 5)] 2) =
     Inr \<lparr>pixels_array = [(5, 5, 5), (5, 5, 5), (9, 9, 9)],
          centers = [Some (6, 6, 6), Some (9, 9, 9)],
          old_centers = [(5, 5, 5), (5, 5, 5)], iterations = 0, draws = 1, passes = 1\<rparr>"
  by (simp add: kmeans_init_def host_last_def kmeans_pass_def target_index_def push_cluster_def
      sum_points_def mean_point_def math_round_def nth_opt_def Let_def numeral_2_eq_2)

lemma kmeans_reseed_example:
  "kmeans host_last [(9, 9, 9), (5, 5, 5), (5, 5, 5)] 2 100 = Inr [Some (5, 5, 5), Some (9, 9, 9)]"
  by (simp add: kmeans_eval host_last_def)

subsection \<open>The claims on k-means\<close>

text \<open>
  Claim C7. With as many current centres as old ones or more, all of them defined,
  \<open>isConverged\<close> answers true exactly when there is an old centre and every old
  centre lies within distance 1 of the current centre of its index. Without old
  centres the answer is false, so a run with a budget of 0 or more that returns has
  executed the body of the loop at least once.
\<close>

theorem isConverged_pairwise:
  "(length old \<le> length new \<and> None \<notin> set new \<longrightarrow>
      isConverged old new =
        Inr (old \<noteq> [] \<and> (\<forall>i<length old. euclideanDistance (old ! i) (the (new ! i)) \<le> 1)))
   \<and> isConverged [] new = Inr False
   \<and> (0 \<le> max_iterations \<and> kmeans_run h pixels k max_iterations = Inr s \<longrightarrow> 1 \<le> passes s)"
proof -
  have one: "1 \<le> passes s" if m: "0 \<le> max_iterations"
    and run: "kmeans_run h pixels k max_iterations = Inr s"
  proof -
    let ?s0 = "kmeans_init h pixels k"
    have s0: "old_centers ?s0 = []" "iterations ?s0 = 0"
      by (simp_all add: kmeans_init_def Let_def)
    from run have "kmeans_loop h k max_iterations ?s0 = Inr s" by (simp add: kmeans_run_def)
    then show ?thesis
    proof (cases rule: kmeans_loop_cases)
      case converged
      then show ?thesis using s0 by (simp add: isConverged_def)
    next
      case budget
      then show ?thesis using s0 m by simp
    next
      case (step s1)
      have "passes s1 = Suc (passes ?s0)" using kmeans_pass_frame[OF step(3)] by simp
      with loop_passes[OF step(4)] show ?thesis by simp
    qed
  qed
  show ?thesis using isConverged_spec[of old new] one by (simp add: isConverged_def)
qed

theorem isConverged_pairwise_witness:
  "isConverged [(0, 0, 0)] [Some (0, 0, 1)] = Inr True
   \<and> isConverged [(0, 0, 0)] [Some (0, 1, 1)] = Inr False
   \<and> isConverged [] [Some (0, 0, 1)] = Inr False
   \<and> 1 \<le> passes \<lparr>pixels_array = [(0, 0, 1), (0, 0, 0)], centers = [Some (0, 0, 1)],
          old_centers = [(0, 0, 1)], iterations = 1, draws = 0, passes = 1\<rparr>"
  using isConverged_pairwise [of "[(0, 0, 0)]" "[Some (0, 0, 1)]" 100 host_rev "[(0, 0, 0), (0, 0, 1)]" 1]
    isConverged_pairwise [of "[(0, 0, 0)]" "[Some (0, 1, 1)]" 100 host_rev "[(0, 0, 0), (0, 0, 1)]" 1]
    kmeans_run_example
  by (simp add: isConverged_def)

text \<open>
  Claim C5. An assignment step with at least one centre and no more centres than
  clusters succeeds and gives \<open>k\<close> clusters that hold the points of the array, each
  as often as the array does. Cluster \<open>j\<close> holds, in the array's order, the points
  whose target index is \<open>j\<close>, and the target index of a point is the index of a
  centre at the least distance from it, the first such one.
\<close>

theorem assign_partition:
  assumes "cs \<noteq> []" and "length cs \<le> k"
  shows "\<exists>clusters. assign cs pixels (replicate k []) = Inr clusters
           \<and> length clusters = k
           \<and> mset (concat clusters) = mset pixels
           \<and> (\<forall>j<k. clusters ! j = filter (\<lambda>p. target_index cs p = int j) pixels)
           \<and> (\<forall>p. nat (target_index cs p) < length cs
                 \<and> (\<forall>i<length cs. euclideanDistance (cs ! nat (target_index cs p)) p
                                     \<le> euclideanDistance (cs ! i) p)
                 \<and> (\<forall>i<nat (target_index cs p). euclideanDistance (cs ! nat (target_index cs p)) p
                                     < euclideanDistance (cs ! i) p))"
proof -
  from assign_ok[OF assms(1), of "replicate k []" pixels] assms(2) obtain clusters
    where a: "assign cs pixels (replicate k []) = Inr clusters" by auto
  have len: "length clusters = k" using assign_length[OF a] by simp
  have ms: "mset (concat clusters) = mset pixels" using assign_mset[OF a] by simp
  have fl: "\<forall>j<k. clusters ! j = filter (\<lambda>p. target_index cs p = int j) pixels"
    using assign_filter[OF a] by simp
  from a len ms fl target_index_first_min[OF assms(1)] show ?thesis by blast
qed

theorem assign_partition_witness:
  "assign [(0, 0, 0), (2, 0, 0)] [(1, 0, 0), (2, 0, 1)] (replicate 2 [])
     = Inr [[(1, 0, 0)], [(2, 0, 1)]]
   \<and> mset (concat [[(1, 0, 0)], [(2, 0, 1)]]) = mset [(1, 0, 0), (2, 0, 1) :: point]"
proof -
  have "[(0, 0, 0), (2, 0, 0)] \<noteq> ([]::point list)"
    and "length [(0::real, 0::real, 0::real), (2, 0, 0)] \<le> 2"
    by simp_all
  from assign_partition [OF this, of "[(1, 0, 0), (2, 0, 1)]"] obtain clusters
    where a: "assign [(0, 0, 0), (2, 0, 0)] [(1, 0, 0), (2, 0, 1)] (replicate 2 []) = Inr clusters"
      and m: "mset (concat clusters) = mset [(1, 0, 0), (2, 0, 1)]"
    by blast
  from a [unfolded assign_example] have "clusters = [[(1, 0, 0)], [(2, 0, 1)]]" by simp
  with m assign_example show ?thesis by (simp only: simp_thms)
qed

text \<open>
  Claim C4. With \<open>k \<le> N\<close> there are \<open>k\<close> centres at the start and \<open>k\<close> centres
  after every pass. In a pass of the run, the new centre of a cluster that is not
  empty is the rounded mean of its points, and the new centre of an empty cluster
  is the point of the array at the index that the next random number gives, which
  is one of the input points. The sequence that a call returns has \<open>k\<close> centres, and
  with \<open>k \<ge> 1\<close> the call returns.
\<close>

theorem kmeans_center_count:
  assumes "host_ok h" and "k \<le> length pixels"
  shows "length (centers (kmeans_init h pixels k)) = k
       \<and> (\<forall>s s'. kmeans_pass h k s = Inr s' \<longrightarrow> length (centers s') = k)
       \<and> (\<forall>s s'. pixels_array s = sort_random h pixels \<and> kmeans_pass h k s = Inr s' \<longrightarrow>
            (\<exists>cs clusters. centers s = map Some cs
               \<and> assign cs (pixels_array s) (replicate k []) = Inr clusters
               \<and> (\<forall>j<k. centers s' ! j =
                     (if clusters ! j = []
                      then nth_opt (pixels_array s)
                             \<lfloor>random h (draws s + length (filter (\<lambda>c. c = []) (take j clusters)))
                                * real (length (pixels_array s))\<rfloor>
                      else Some (mean_point (clusters ! j))))
               \<and> (\<forall>j<k. clusters ! j = [] \<longrightarrow> (\<exists>p\<in>set pixels. centers s' ! j = Some p))))
       \<and> (\<forall>cs. kmeans h pixels k max_iterations = Inr cs \<longrightarrow> length cs = k)
       \<and> (1 \<le> k \<longrightarrow> (\<exists>cs. kmeans h pixels k max_iterations = Inr cs))"
proof -
  have ms: "mset (sort_random h pixels) = mset pixels" using assms(1) by (simp add: host_ok_def)
  then have "length (sort_random h pixels) = length pixels" by (rule mset_eq_length)
  then have init: "length (centers (kmeans_init h pixels k)) = k"
    using assms(2) by (simp add: kmeans_init_def Let_def)
  have st: "set (sort_random h pixels) = set pixels" using ms by (rule mset_eq_setD)
  have rnd: "\<forall>n. 0 \<le> random h n \<and> random h n < 1" using assms(1) by (simp add: host_ok_def)
  have pass: "\<forall>s s'. kmeans_pass h k s = Inr s' \<longrightarrow> length (centers s') = k"
    using kmeans_pass_frame by blast
  have seed: "\<forall>s s'. pixels_array s = sort_random h pixels \<and> kmeans_pass h k s = Inr s' \<longrightarrow>
            (\<exists>cs clusters. centers s = map Some cs
               \<and> assign cs (pixels_array s) (replicate k []) = Inr clusters
               \<and> (\<forall>j<k. centers s' ! j =
                     (if clusters ! j = []
                      then nth_opt (pixels_array s)
                             \<lfloor>random h (draws s + length (filter (\<lambda>c. c = []) (take j clusters)))
                                * real (length (pixels_array s))\<rfloor>
                      else Some (mean_point (clusters ! j))))
               \<and> (\<forall>j<k. clusters ! j = [] \<longrightarrow> (\<exists>p\<in>set pixels. centers s' ! j = Some p)))"
  proof (intro allI impI, elim conjE)
    fix s s'
    assume px: "pixels_array s = sort_random h pixels" and p: "kmeans_pass h k s = Inr s'"
    from kmeans_pass_centers[OF p] obtain cs clusters where
      c: "centers s = map Some cs" and
      a: "assign cs (pixels_array s) (replicate k []) = Inr clusters" and
      n: "\<forall>j<k. centers s' ! j =
                     (if clusters ! j = []
                      then nth_opt (pixels_array s)
                             \<lfloor>random h (draws s + length (filter (\<lambda>c. c = []) (take j clusters)))
                                * real (length (pixels_array s))\<rfloor>
                      else Some (mean_point (clusters ! j)))"
      by blast
    have "\<forall>j<k. clusters ! j = [] \<longrightarrow> (\<exists>p\<in>set pixels. centers s' ! j = Some p)"
    proof (intro allI impI)
      fix j assume j: "j < k" and e: "clusters ! j = []"
      from j assms(2) have "pixels \<noteq> []" by auto
      then have ne: "pixels_array s \<noteq> []" using px st by (metis set_empty)
      let ?r = "random h (draws s + length (filter (\<lambda>c. c = []) (take j clusters)))"
      from rnd have "0 \<le> ?r" "?r < 1" by simp_all
      from random_index_mem[OF this ne] obtain p where
        "p \<in> set (pixels_array s)" "nth_opt (pixels_array s) \<lfloor>?r * real (length (pixels_array s))\<rfloor> = Some p"
        by blast
      with n j e px st show "\<exists>p\<in>set pixels. centers s' ! j = Some p" by auto
    qed
    with c a n show "\<exists>cs clusters. centers s = map Some cs
               \<and> assign cs (pixels_array s) (replicate k []) = Inr clusters
               \<and> (\<forall>j<k. centers s' ! j =
                     (if clusters ! j = []
                      then nth_opt (pixels_array s)
                             \<lfloor>random h (draws s + length (filter (\<lambda>c. c = []) (take j clusters)))
                                * real (length (pixels_array s))\<rfloor>
                      else Some (mean_point (clusters ! j))))
               \<and> (\<forall>j<k. clusters ! j = [] \<longrightarrow> (\<exists>p\<in>set pixels. centers s' ! j = Some p))"
      by blast
  qed
  have ret: "\<forall>cs. kmeans h pixels k max_iterations = Inr cs \<longrightarrow> length cs = k"
  proof (intro allI impI)
    fix cs assume "kmeans h pixels k max_iterations = Inr cs"
    then obtain s where run: "kmeans_loop h k max_iterations (kmeans_init h pixels k) = Inr s"
      and cs: "cs = centers s"
      by (auto simp: kmeans_def kmeans_run_def split: sum.splits)
    from loop_length[OF run init] cs show "length cs = k" by simp
  qed
  have ex: "1 \<le> k \<longrightarrow> (\<exists>cs. kmeans h pixels k max_iterations = Inr cs)"
  proof
    assume k: "1 \<le> k"
    then have "pixels \<noteq> []" using assms(2) by auto
    from kmeans_run_ok[OF assms(1) k this, of max_iterations]
    show "\<exists>cs. kmeans h pixels k max_iterations = Inr cs" by (auto simp: kmeans_def)
  qed
  from init pass seed ret ex show ?thesis by blast
qed

theorem kmeans_center_count_witness:
  "length (centers (kmeans_init host_last [(9, 9, 9), (5, 5, 5), (5, 5, 5)] 2)) = 2
   \<and> kmeans_pass host_last 2 (kmeans_init host_last [(9, 9, 9), (5, 5, 5), (5, 5, 5)] 2) =
       Inr \<lparr>pixels_array = [(5, 5, 5), (5, 5, 5), (9, 9, 9)],
            centers = [Some (6, 6, 6), Some (9, 9, 9)],
            old_centers = [(5, 5, 5), (5, 5, 5)], iterations = 0, draws = 1, passes = 1\<rparr>
   \<and> assign [(5, 5, 5), (5, 5, 5)] [(5, 5, 5), (5, 5, 5), (9, 9, 9)] (replicate 2 [])
       = Inr [[(5, 5, 5), (5, 5, 5), (9, 9, 9)], []]
   \<and> (9, 9, 9) \<in> set [(9, 9, 9), (5, 5, 5), (5, 5, 5) :: point]
   \<and> kmeans host_last [(9, 9, 9), (5, 5, 5), (5, 5, 5)] 2 100 = Inr [Some (5, 5, 5), Some (9, 9, 9)]
   \<and> length [Some (5, 5, 5), Some (9, 9, 9) :: point option] = 2"
proof -
  note t = kmeans_center_count [of host_last 2 "[(9, 9, 9), (5, 5, 5), (5, 5, 5)]" 100]
  have h: "2 \<le> length [(9, 9, 9), (5, 5, 5), (5, 5, 5) :: point]" by simp
  from t [OF host_ok_last h]
  have a: "length (centers (kmeans_init host_last [(9, 9, 9), (5, 5, 5), (5, 5, 5)] 2)) = 2"
    by blast
  have b: "assign [(5, 5, 5), (5, 5, 5)] [(5, 5, 5), (5, 5, 5), (9, 9, 9)] (replicate 2 [])
       = Inr [[(5, 5, 5), (5, 5, 5), (9, 9, 9)], []]"
    by (simp add: target_index_def push_cluster_def Let_def numeral_2_eq_2)
  from a b kmeans_pass_reseed_example kmeans_reseed_example show ?thesis by simp
qed

text \<open>
  Claim C3. The loop is a total function of its state: its recursion ends because
  \<open>max_iterations + 1 - iterations\<close> falls. A run that returns has executed the body
  at most \<open>max_iterations + 1\<close> times, and a run on a non-empty array with \<open>k \<ge> 1\<close>
  returns.
\<close>

theorem kmeans_pass_budget:
  "(\<forall>s. kmeans_run h pixels k max_iterations = Inr s \<longrightarrow> passes s \<le> nat (max_iterations + 1))
   \<and> (host_ok h \<and> 1 \<le> k \<and> pixels \<noteq> [] \<longrightarrow> (\<exists>s. kmeans_run h pixels k max_iterations = Inr s))"
  using kmeans_run_ok [of h k pixels max_iterations] kmeans_run_passes [of h pixels k max_iterations]
  by blast

theorem kmeans_pass_budget_witness:
  "\<exists>s. kmeans_run host_rev [(0, 0, 0), (0, 0, 1)] 1 100 = Inr s \<and> passes s \<le> 101"
proof -
  from kmeans_pass_budget [of host_rev "[(0, 0, 0), (0, 0, 1)]" 1 100] host_ok_rev
  obtain s where "kmeans_run host_rev [(0, 0, 0), (0, 0, 1)] 1 100 = Inr s" by auto
  with kmeans_pass_budget [of host_rev "[(0, 0, 0), (0, 0, 1)]" 1 100] show ?thesis by auto
qed

text \<open>
  Claim C1, as amended. \<open>kmeans\<close> sorts the caller's array in place and takes no
  copy: when the call returns, the array is what the random sort at the start left,
  a permutation of the points it held. The loop does not write to it.
\<close>

theorem kmeans_permutes_input:
  assumes "host_ok h" and "kmeans_run h pixels k max_iterations = Inr s"
  shows "pixels_array s = sort_random h pixels \<and> mset (pixels_array s) = mset pixels"
  using kmeans_run_pixels[OF assms(2)] assms(1) by (simp add: host_ok_def)

theorem kmeans_permutes_input_witness:
  "pixels_after host_rev [(0, 0, 0), (0, 0, 1)] 1 100 = Some (rev [(0, 0, 0), (0, 0, 1)])
   \<and> mset (the (pixels_after host_rev [(0, 0, 0), (0, 0, 1)] 1 100))
       = mset [(0, 0, 0), (0, 0, 1)]"
  using kmeans_permutes_input [OF host_ok_rev kmeans_run_example] kmeans_run_example
  by (simp add: pixels_after_def host_rev_def)

text \<open>
  Claim C1 as stated fails: with an engine whose random sort swaps the two points,
  the caller's array holds them in the other order after the call.
\<close>

theorem kmeans_reorders_input:
  "pixels_after host_rev [(0, 0, 0), (0, 0, 1)] 1 100 = Some [(0, 0, 1), (0, 0, 0)]
   \<and> pixels_after host_rev [(0, 0, 0), (0, 0, 1)] 1 100 \<noteq> Some [(0, 0, 0), (0, 0, 1)]"
  using kmeans_run_example by (simp add: pixels_after_def)

end
